theory Spec2Isabelle
  imports Main
begin

section \<open>JavaScript values\<close>

text \<open>
  The library works on arbitrary JavaScript values and dispatches on \<open>typeof\<close>,
  \<open>Array.isArray\<close> and \<open>=== null\<close>. A value is a tree: primitives at the leaves,
  arrays and plain objects inside. A plain object is the list of its own enumerable
  entries, in the order \<open>Object.keys\<close> reports them; a well-formed object has no key
  twice (\<open>unique_keys\<close> below). Function and symbol values are opaque references.
  The library never computes with numbers: it tests them with \<open>===\<close> and for
  truthiness only, so a number is either \<open>NaN\<close>, which is not \<open>===\<close> to itself, or a
  value given by an integer.

  A property write \<open>obj[key] = v\<close> is modelled with the one member of
  \<open>Object.prototype\<close> that intercepts it, the accessor \<open>__proto__\<close> (\<open>obj_set\<close> below).
  A property read \<open>obj[key]\<close> is modelled as a read of own entries, a missing key
  reading as \<open>undefined\<close> (\<open>obj_get\<close> below). That is the code's read wherever the key
  is one of \<open>Object.keys\<close> of the same object, as in \<open>isValid\<close>, \<open>sanitize\<close> and
  \<open>camelize\<close>, and wherever the key names no member of \<open>Object.prototype\<close>; the general
  facts below about the reads \<open>v2[key]\<close> of \<open>areEqual\<close> and \<open>accumulator[key]\<close> of
  \<open>normalize\<close> carry that condition as a hypothesis. A new key is appended at the end,
  which is where \<open>Object.keys\<close> reports a key that is not an array index. Sparse arrays
  and cyclic values are not represented.
\<close>

datatype number = NaN | Num int

datatype jsval =
    JUndefined
  | JNull
  | JBool bool
  | JNum number
  | JBigInt int
  | JStr string
  | JSymbol nat
  | JFun nat
  | JArr "jsval list"
  | JObj "(string \<times> jsval) list"

datatype jstype =
  TUndefined | TObject | TBoolean | TNumber | TBigInt | TString | TSymbol | TFunction

fun typeof :: "jsval \<Rightarrow> jstype" where
  "typeof JUndefined = TUndefined"
| "typeof JNull = TObject"
| "typeof (JBool _) = TBoolean"
| "typeof (JNum _) = TNumber"
| "typeof (JBigInt _) = TBigInt"
| "typeof (JStr _) = TString"
| "typeof (JSymbol _) = TSymbol"
| "typeof (JFun _) = TFunction"
| "typeof (JArr _) = TObject"
| "typeof (JObj _) = TObject"

fun isArray :: "jsval \<Rightarrow> bool" where
  "isArray (JArr _) = True"
| "isArray _ = False"

text \<open>
  The casts of the source (\<open>value as string\<close>, \<open>value as Record<string, unknown>\<close>)
  and the use of a value as an array after \<open>Array.isArray\<close> has succeeded.
\<close>

fun as_string :: "jsval \<Rightarrow> string" where
  "as_string (JStr s) = s"
| "as_string _ = []"

fun as_array :: "jsval \<Rightarrow> jsval list" where
  "as_array (JArr xs) = xs"
| "as_array _ = []"

fun as_record :: "jsval \<Rightarrow> (string \<times> jsval) list" where
  "as_record (JObj kvs) = kvs"
| "as_record _ = []"

text \<open>
  \<open>Object.keys(obj)\<close> and \<open>obj[k]\<close> on the entries of an object. The read is a read of
  own entries; it is what the code reads wherever the key comes from \<open>Object.keys\<close> of
  the same object.
\<close>

definition keys :: "(string \<times> 'a) list \<Rightarrow> string list" where
  "keys obj = map fst obj"

definition obj_get :: "(string \<times> jsval) list \<Rightarrow> string \<Rightarrow> jsval" where
  "obj_get obj k = (case map_of obj k of Some v \<Rightarrow> v | None \<Rightarrow> JUndefined)"

text \<open>
  The names of the members every plain object inherits from \<open>Object.prototype\<close>. All
  are writable data properties except \<open>__proto__\<close>, which is an accessor.
\<close>

definition proto_key :: string where
  "proto_key = ''__proto__''"

definition object_prototype_names :: "string list" where
  "object_prototype_names =
     [''constructor'', ''hasOwnProperty'', ''isPrototypeOf'', ''propertyIsEnumerable'',
      ''toLocaleString'', ''toString'', ''valueOf'', ''__defineGetter__'',
      ''__defineSetter__'', ''__lookupGetter__'', ''__lookupSetter__'', proto_key]"

text \<open>
  \<open>obj[k] = v\<close> on the entries of an object. A key the object has gets the new value.
  A new key becomes a new entry at the end, except \<open>__proto__\<close>: on an object without
  that own key the write goes to the accessor inherited from \<open>Object.prototype\<close>, which
  sets the prototype when \<open>v\<close> is an object and does nothing otherwise; in both cases the
  object gets no entry. An own key \<open>__proto__\<close> only comes from outside the library
  (\<open>JSON.parse\<close>, a computed key); the objects the library builds start empty and never
  get one.
\<close>

fun obj_set :: "(string \<times> 'a) list \<Rightarrow> string \<Rightarrow> 'a \<Rightarrow> (string \<times> 'a) list" where
  "obj_set [] k v = (if k = proto_key then [] else [(k, v)])"
| "obj_set ((k', v') # rest) k v =
     (if k' = k then (k, v) # rest else (k', v') # obj_set rest k v)"

text \<open>\<open>arr[index]\<close>: reading past the end of an array yields \<open>undefined\<close>.\<close>

definition arr_get :: "jsval list \<Rightarrow> nat \<Rightarrow> jsval" where
  "arr_get xs i = (if i < length xs then xs ! i else JUndefined)"

text \<open>
  \<open>a === b\<close> where the library applies it: to two primitives of the same \<open>typeof\<close>, to
  two functions (reference identity), and to a pair one side of which is \<open>null\<close>. The
  library never applies it to two objects, so object identity needs no model.
\<close>

definition strict_eq :: "jsval \<Rightarrow> jsval \<Rightarrow> bool" where
  "strict_eq a b =
     (case a of
        JNum x \<Rightarrow> (case b of JNum y \<Rightarrow> x \<noteq> NaN \<and> x = y | _ \<Rightarrow> False)
      | JArr _ \<Rightarrow> False
      | JObj _ \<Rightarrow> False
      | _ \<Rightarrow> a = b)"

text \<open>\<open>ToBoolean\<close>, as applied by \<open>!x\<close>.\<close>

fun truthy :: "jsval \<Rightarrow> bool" where
  "truthy JUndefined = False"
| "truthy JNull = False"
| "truthy (JBool b) = b"
| "truthy (JNum n) = (n \<noteq> NaN \<and> n \<noteq> Num 0)"
| "truthy (JBigInt i) = (i \<noteq> 0)"
| "truthy (JStr s) = (s \<noteq> [])"
| "truthy _ = True"

text \<open>Every object of the tree has each of its keys once.\<close>

fun unique_keys :: "jsval \<Rightarrow> bool" where
  "unique_keys (JArr xs) = list_all unique_keys xs"
| "unique_keys (JObj kvs) = (distinct (keys kvs) \<and> list_all (\<lambda>kv. unique_keys (snd kv)) kvs)"
| "unique_keys _ = True"

text \<open>No record of the tree has the own key \<open>__proto__\<close>.\<close>

fun no_proto_key :: "jsval \<Rightarrow> bool" where
  "no_proto_key (JArr xs) = list_all no_proto_key xs"
| "no_proto_key (JObj kvs) =
     list_all (\<lambda>kv. fst kv \<noteq> proto_key \<and> no_proto_key (snd kv)) kvs"
| "no_proto_key _ = True"

text \<open>
  No record of the tree stores \<open>undefined\<close> under a key, and no key names a member of
  \<open>Object.prototype\<close>: on such trees a read \<open>obj[k]\<close> is \<open>undefined\<close> exactly when the
  object lacks the key \<open>k\<close>.
\<close>

fun plain_entries :: "jsval \<Rightarrow> bool" where
  "plain_entries (JArr xs) = list_all plain_entries xs"
| "plain_entries (JObj kvs) =
     list_all (\<lambda>kv. fst kv \<notin> set object_prototype_names \<and> snd kv \<noteq> JUndefined \<and>
                     plain_entries (snd kv)) kvs"
| "plain_entries _ = True"

text \<open>Reading an entry or an element yields a value no larger than the container.\<close>

lemma size_obj_get_le: "size (obj_get kvs k) \<le> size_list (size_prod (\<lambda>_. 0) size) kvs"
  by (induction kvs) (auto simp: obj_get_def)

lemma size_obj_get: "size (obj_get kvs k) < Suc (size_list (size_prod (\<lambda>_. 0) size) kvs)"
  by (simp add: less_Suc_eq_le size_obj_get_le)

lemma size_arr_get_le: "size (arr_get xs i) \<le> size_list size xs"
  unfolding arr_get_def by (auto intro!: size_list_estimation' [OF nth_mem])

lemma size_member: "x \<in> set xs \<Longrightarrow> size x < Suc (size_list size xs)"
  by (simp add: less_Suc_eq_le size_list_estimation')

section \<open>String built-ins\<close>

text \<open>
  Strings are lists of 8-bit characters, read as ASCII text: the white space that
  \<open>trim\<close> strips is tab, line feed, vertical tab, form feed, carriage return and space,
  and the case mappings change the letters a-z and A-Z only.
\<close>

definition is_ws :: "char \<Rightarrow> bool" where
  "is_ws c = (c \<in> set [CHR 0x09, CHR 0x0A, CHR 0x0B, CHR 0x0C, CHR 0x0D, CHR 0x20])"

definition trim :: "string \<Rightarrow> string" where
  "trim s = rev (dropWhile is_ws (rev (dropWhile is_ws s)))"

definition lower_letters :: string where
  "lower_letters = ''abcdefghijklmnopqrstuvwxyz''"

definition upper_letters :: string where
  "upper_letters = ''ABCDEFGHIJKLMNOPQRSTUVWXYZ''"

definition upper_char :: "char \<Rightarrow> char" where
  "upper_char c = (case map_of (zip lower_letters upper_letters) c of Some u \<Rightarrow> u | None \<Rightarrow> c)"

definition lower_char :: "char \<Rightarrow> char" where
  "lower_char c = (case map_of (zip upper_letters lower_letters) c of Some l \<Rightarrow> l | None \<Rightarrow> c)"

definition toLocaleUpperCase :: "string \<Rightarrow> string" where
  "toLocaleUpperCase s = map upper_char s"

definition toLocaleLowerCase :: "string \<Rightarrow> string" where
  "toLocaleLowerCase s = map lower_char s"

text \<open>
  \<open>s.substring(start, end)\<close>: both indices are clamped to the length, swapped when
  out of order, and \<open>end\<close> defaults to the length.
\<close>

definition substring :: "string \<Rightarrow> nat \<Rightarrow> nat option \<Rightarrow> string" where
  "substring s start end' =
     (let len = length s;
          a = min start len;
          b = (case end' of None \<Rightarrow> len | Some e \<Rightarrow> min e len);
          from = min a b;
          to = max a b
      in take (to - from) (drop from s))"

text \<open>
  \<open>s.split(sep)\<close> for a string separator. An empty separator cuts the string into
  its single characters. Otherwise the string is scanned from the left: \<open>cur\<close> is the
  segment collected since the last match, and at a position where \<open>sep\<close> occurs
  literally the segment is closed and the scan resumes behind the occurrence.
\<close>

fun split_from :: "string \<Rightarrow> string \<Rightarrow> string \<Rightarrow> string list" where
  "split_from sep cur [] = [cur]"
| "split_from sep cur (c # cs) =
     (if take (length sep) (c # cs) = sep
      then cur # split_from sep [] (drop (length sep - 1) cs)
      else split_from sep (cur @ [c]) cs)"

definition split :: "string \<Rightarrow> string \<Rightarrow> string list" where
  "split s sep = (if sep = [] then map (\<lambda>c. [c]) s else split_from sep [] s)"

text \<open>\<open>sep\<close> occurs in \<open>s\<close> at index \<open>i\<close>, character by character.\<close>

definition occurs_at :: "string \<Rightarrow> string \<Rightarrow> nat \<Rightarrow> bool" where
  "occurs_at sep s i = (take (length sep) (drop i s) = sep)"

text \<open>\<open>pieces.join(sep)\<close> on an array of strings.\<close>

fun join :: "string \<Rightarrow> string list \<Rightarrow> string" where
  "join sep [] = []"
| "join sep [x] = x"
| "join sep (x # y # ys) = x @ sep @ join sep (y # ys)"

section \<open>The library\<close>

subsection \<open>toTitleCase\<close>

definition toTitleCase :: "jsval \<Rightarrow> string \<Rightarrow> jsval" where
  "toTitleCase v splitter =
     (if typeof v \<noteq> TString then v
      else JStr (join '' ''
             (map (\<lambda>v. toLocaleUpperCase (substring v 0 (Some 1)) @
                        toLocaleLowerCase (substring v 1 None))
                  (split (as_string v) splitter))))"

text \<open>
  The piece the specification describes for a segment: its first character in upper
  case and the remainder in lower case; the empty segment gives the empty piece.
\<close>

fun spec_title_piece :: "string \<Rightarrow> string" where
  "spec_title_piece [] = []"
| "spec_title_piece (c # cs) = upper_char c # map lower_char cs"

subsection \<open>isValid\<close>

function isValid :: "jsval \<Rightarrow> bool" where
  "isValid v =
     (case typeof v of
        TString \<Rightarrow> length (trim (as_string v)) \<noteq> 0
      | TObject \<Rightarrow>
          (if v = JNull then False
           else if isArray v then list_ex (\<lambda>x. isValid x) (as_array v)
           else list_ex (\<lambda>k. isValid (obj_get (as_record v) k)) (keys (as_record v)))
      | TNumber \<Rightarrow> True
      | TBigInt \<Rightarrow> True
      | TBoolean \<Rightarrow> True
      | _ \<Rightarrow> False)"
  by pat_completeness auto
termination
proof (relation "measure size")
  show "wf (measure size)" by simp
next
  fix v x
  assume "typeof v = TObject" "v \<noteq> JNull" "isArray v" "x \<in> set (as_array v)"
  then show "(x, v) \<in> measure size"
    by (cases v) (simp_all add: size_member)
next
  fix v k
  assume "typeof v = TObject" "v \<noteq> JNull" "\<not> isArray v"
  then show "(obj_get (as_record v) k, v) \<in> measure size"
    by (cases v) (simp_all add: size_obj_get)
qed

subsection \<open>sanitize\<close>

function sanitize :: "jsval \<Rightarrow> jsval" where
  "sanitize v =
     (if typeof v = TString then JStr (trim (as_string v))
      else if typeof v = TObject then
        (if v = JNull then v
         else if isArray v then
           JArr (fold (\<lambda>x sanitizedArray.
                         let sanitizedV = sanitize x
                         in if isValid sanitizedV then sanitizedArray @ [sanitizedV]
                            else sanitizedArray)
                      (as_array v) [])
         else
           JObj (fold (\<lambda>k result.
                         let v' = sanitize (obj_get (as_record v) k)
                         in if isValid v' then obj_set result k v' else result)
                      (keys (as_record v)) []))
      else v)"
  by pat_completeness auto
termination
proof (relation "measure size")
  show "wf (measure size)" by simp
next
  fix v x
  assume "typeof v = TObject" "v \<noteq> JNull" "isArray v" "x \<in> set (as_array v)"
  then show "(x, v) \<in> measure size"
    by (cases v) (simp_all add: size_member)
next
  fix v k
  assume "typeof v = TObject" "v \<noteq> JNull" "\<not> isArray v"
  then show "(obj_get (as_record v) k, v) \<in> measure size"
    by (cases v) (simp_all add: size_obj_get)
qed

text \<open>The record that \<open>sanitize\<close> builds, for any list of entries.\<close>

definition sanitized_entries :: "(string \<times> jsval) list \<Rightarrow> (string \<times> jsval) list" where
  "sanitized_entries kvs =
     fold (\<lambda>k r. let s = sanitize (obj_get kvs k) in if isValid s then obj_set r k s else r)
          (keys kvs) []"

subsection \<open>areEqual\<close>

function areEqual :: "jsval \<Rightarrow> jsval \<Rightarrow> bool \<Rightarrow> bool \<Rightarrow> bool" where
  "areEqual value1 value2 trimWhiteSpace ignoreCase =
     (if typeof value1 \<noteq> typeof value2 then False
      else
        (case typeof value1 of
           TString \<Rightarrow>
             (let v1 = (if trimWhiteSpace then trim (as_string value1) else as_string value1);
                  v2 = (if trimWhiteSpace then trim (as_string value2) else as_string value2)
              in if ignoreCase then toLocaleLowerCase v1 = toLocaleLowerCase v2
                 else v1 = v2)
         | TObject \<Rightarrow>
             (if value1 = JNull \<or> value2 = JNull then strict_eq value1 value2
              else if isArray value1 \<and> isArray value2 then
                length (as_array value1) = length (as_array value2) \<and>
                list_all (\<lambda>(v, index).
                            areEqual v (arr_get (as_array value1) index) trimWhiteSpace ignoreCase)
                         (zip (as_array value2) [0 ..< length (as_array value2)])
              else if (isArray value1 \<and> \<not> isArray value2) \<or>
                      (isArray value2 \<and> \<not> isArray value1) then False
              else
                (let v1 = as_record value1;
                     v2 = as_record value2;
                     ks = keys v1
                 in length ks = length (keys v2) \<and>
                    list_all (\<lambda>key. areEqual (obj_get v1 key) (obj_get v2 key)
                                        trimWhiteSpace ignoreCase) ks))
         | _ \<Rightarrow> strict_eq value1 value2))"
  by pat_completeness auto
termination
proof (relation "measure (\<lambda>(a, b, t, c). size a + size b)", goal_cases)
  case 1
  show ?case by simp
next
  case (2 value1 value2 trimWhiteSpace ignoreCase x v index)
  then obtain a1 a2 where a: "value1 = JArr a1" "value2 = JArr a2"
    by (cases value1; cases value2) simp_all
  from 2 a have "v \<in> set a2"
    by (auto dest: set_zip_leftD)
  then have "size v \<le> size_list size a2"
    by (simp add: size_list_estimation')
  moreover have "size (arr_get a1 index) \<le> size_list size a1"
    by (simp add: size_arr_get_le)
  ultimately show ?case using a by simp
next
  case (3 value1 value2 trimWhiteSpace ignoreCase v1 v2 ks key)
  then obtain o1 o2 where ob: "value1 = JObj o1" "value2 = JObj o2"
    by (cases value1; cases value2) simp_all
  have "size (obj_get o1 key) \<le> size_list (size_prod (\<lambda>_. 0) size) o1"
       "size (obj_get o2 key) \<le> size_list (size_prod (\<lambda>_. 0) size) o2"
    by (simp_all add: size_obj_get_le)
  then show ?case using ob 3 by simp
qed

subsection \<open>camelize\<close>

text \<open>The key computed for \<open>key\<close> in the loop of \<open>camelizeObject\<close>.\<close>

definition transformedKey :: "string \<Rightarrow> string" where
  "transformedKey key =
     (let splittedKey = split key ''_''
      in (case splittedKey of [] \<Rightarrow> ''undefined'' | s # _ \<Rightarrow> toLocaleLowerCase s) @
         join [] (map (\<lambda>k. as_string (toTitleCase (JStr k) '' '')) (drop 1 splittedKey)))"

text \<open>
  The key the specification describes for a key without underscore: the first letter in
  lower case, the rest unchanged.
\<close>

definition spec_lower_first :: "string \<Rightarrow> string" where
  "spec_lower_first key = toLocaleLowerCase (take 1 key) @ drop 1 key"

function camelizeObject :: "jsval \<Rightarrow> jsval" and camelizeArray :: "jsval \<Rightarrow> jsval" where
  "camelizeObject obj =
     (if typeof obj \<noteq> TObject \<or> obj = JNull then obj
      else if isArray obj then camelizeArray obj
      else
        (let input = as_record obj
         in JObj (fold (\<lambda>key result.
                          let v = obj_get input key
                          in obj_set result (transformedKey key) (camelizeObject v))
                       (keys input) [])))"
| "camelizeArray arr =
     (if \<not> isArray arr then arr
      else JArr (map (\<lambda>item. if isArray item then camelizeArray item
                               else camelizeObject item)
                     (as_array arr)))"
  by pat_completeness auto
termination
proof (relation "measure (\<lambda>x. case x of Inl v \<Rightarrow> 2 * size v + 1 | Inr v \<Rightarrow> 2 * size v)",
       goal_cases)
  case 1
  show ?case by simp
next
  case (2 obj)
  show ?case by simp
next
  case (3 obj input key result v)
  then obtain kvs where "obj = JObj kvs"
    by (cases obj) simp_all
  with 3 show ?case
    using size_obj_get [of kvs key] by simp
next
  case (4 arr item)
  then obtain xs where "arr = JArr xs"
    by (cases arr) simp_all
  with 4 show ?case
    using size_member [of item xs] by simp
next
  case (5 arr item)
  then obtain xs where "arr = JArr xs"
    by (cases arr) simp_all
  with 5 show ?case
    using size_member [of item xs] by simp
qed

definition camelize :: "jsval \<Rightarrow> jsval" where
  "camelize v =
     (if typeof v \<noteq> TObject \<or> v = JNull then v
      else if isArray v then camelizeArray v
      else camelizeObject v)"

subsection \<open>groupBy and normalize\<close>

text \<open>
  The second argument is either a value that is not a function, or a key generator. A
  key generator returns a string, as its type says, or throws. \<open>reduce\<close> is
  \<open>Array.prototype.reduce\<close> with an initial accumulator; an exception thrown by the
  callback ends the loop. The accumulators are plain objects, given by their entries.
\<close>

datatype exn = Exn string

datatype callback = NotCallable jsval | Callable "jsval \<Rightarrow> exn + string"

fun is_function :: "callback \<Rightarrow> bool" where
  "is_function (Callable _) = True"
| "is_function (NotCallable _) = False"

fun call :: "callback \<Rightarrow> jsval \<Rightarrow> exn + string" where
  "call (Callable f) x = f x"
| "call (NotCallable _) x = Inl (Exn ''TypeError: keyGenerator is not a function'')"

fun reduce :: "('b \<Rightarrow> 'a \<Rightarrow> exn + 'b) \<Rightarrow> 'a list \<Rightarrow> 'b \<Rightarrow> exn + 'b" where
  "reduce f [] accumulator = Inr accumulator"
| "reduce f (currentItem # rest) accumulator =
     (case f accumulator currentItem of
        Inl e \<Rightarrow> Inl e
      | Inr accumulator' \<Rightarrow> reduce f rest accumulator')"

definition groupBy :: "jsval \<Rightarrow> callback \<Rightarrow> exn + (string \<times> jsval list) list" where
  "groupBy v keyGenerator =
     (if \<not> isArray v \<or> \<not> is_function keyGenerator then Inr []
      else reduce
        (\<lambda>accumulator currentItem.
           case call keyGenerator currentItem of
             Inl e \<Rightarrow> Inl e
           | Inr key \<Rightarrow>
               if \<not> isValid (JStr key) then Inr accumulator
               else
                 (let accumulator' =
                        (if map_of accumulator key = None then obj_set accumulator key []
                         else accumulator)
                  in Inr (case map_of accumulator' key of
                            None \<Rightarrow> accumulator'
                          | Some items \<Rightarrow> obj_set accumulator' key (items @ [currentItem]))))
        (as_array v) [])"

definition normalize :: "jsval \<Rightarrow> callback \<Rightarrow> exn + (string \<times> jsval) list" where
  "normalize v keyGenerator =
     (if \<not> isArray v \<or> \<not> is_function keyGenerator then Inr []
      else reduce
        (\<lambda>accumulator currentItem.
           case call keyGenerator currentItem of
             Inl e \<Rightarrow> Inl e
           | Inr key \<Rightarrow>
               if \<not> isValid (JStr key) then Inr accumulator
               else if \<not> truthy (obj_get accumulator key)
                 then Inr (obj_set accumulator key currentItem)
               else Inr accumulator)
        (as_array v) [])"

section \<open>Auxiliary facts\<close>

declare isValid.simps [simp del] sanitize.simps [simp del] areEqual.simps [simp del]
declare camelizeObject.simps [simp del] camelizeArray.simps [simp del]

subsection \<open>Equations by kind of value\<close>

lemma isValid_prim [simp]:
  "isValid JUndefined = False"
  "isValid JNull = False"
  "isValid (JBool b) = True"
  "isValid (JNum n) = True"
  "isValid (JBigInt i) = True"
  "isValid (JSymbol y) = False"
  "isValid (JFun f) = False"
  by (simp_all add: isValid.simps)

lemma isValid_JStr [simp]: "isValid (JStr s) = (trim s \<noteq> [])"
  by (simp add: isValid.simps)

lemma isValid_JArr [simp]: "isValid (JArr xs) = list_ex isValid xs"
  by (subst isValid.simps) simp

lemma isValid_JObj: "isValid (JObj kvs) = list_ex (\<lambda>k. isValid (obj_get kvs k)) (keys kvs)"
  by (subst isValid.simps) simp

lemma sanitize_prim [simp]:
  "sanitize JUndefined = JUndefined"
  "sanitize JNull = JNull"
  "sanitize (JBool b) = JBool b"
  "sanitize (JNum n) = JNum n"
  "sanitize (JBigInt i) = JBigInt i"
  "sanitize (JSymbol y) = JSymbol y"
  "sanitize (JFun f) = JFun f"
  by (simp_all add: sanitize.simps)

lemma sanitize_JStr [simp]: "sanitize (JStr s) = JStr (trim s)"
  by (simp add: sanitize.simps)

lemma sanitize_JArr_fold:
  "sanitize (JArr xs) =
     JArr (fold (\<lambda>x acc. let s = sanitize x in if isValid s then acc @ [s] else acc) xs [])"
  by (subst sanitize.simps) simp

lemma sanitize_JObj_fold:
  "sanitize (JObj kvs) =
     JObj (fold (\<lambda>k r. let s = sanitize (obj_get kvs k) in if isValid s then obj_set r k s else r)
                (keys kvs) [])"
  by (subst sanitize.simps) simp

subsection \<open>Loops as maps and filters\<close>

lemma fold_push:
  "fold (\<lambda>x acc. let s = f x in if P s then acc @ [s] else acc) xs acc0 =
     acc0 @ filter P (map f xs)"
  by (induction xs arbitrary: acc0) (simp_all add: Let_def)

lemma obj_set_proto: "proto_key \<notin> set (keys r) \<Longrightarrow> obj_set r proto_key v = r"
  by (induction r) (auto simp: keys_def)

lemma obj_set_fresh:
  "k \<notin> set (keys r) \<Longrightarrow> k \<noteq> proto_key \<Longrightarrow> obj_set r k v = r @ [(k, v)]"
  by (induction r) (auto simp: keys_def)

lemma fold_obj_set:
  "distinct ks \<Longrightarrow> set ks \<inter> set (keys acc0) = {} \<Longrightarrow> proto_key \<notin> set (keys acc0) \<Longrightarrow>
   fold (\<lambda>k r. let s = f k in if P s then obj_set r k s else r) ks acc0 =
     acc0 @ filter (\<lambda>kv. fst kv \<noteq> proto_key \<and> P (snd kv)) (map (\<lambda>k. (k, f k)) ks)"
proof (induction ks arbitrary: acc0)
  case Nil
  then show ?case by simp
next
  case (Cons k ks)
  have fresh: "k \<notin> set (keys acc0)" and d: "distinct ks"
    and disj: "set ks \<inter> set (keys acc0) = {}" and k: "k \<notin> set ks"
    using Cons.prems by auto
  note same = Cons.IH [OF d disj Cons.prems(3)]
  consider (skip) "\<not> P (f k)" | (proto) "P (f k)" "k = proto_key"
    | (new) "P (f k)" "k \<noteq> proto_key"
    by blast
  then show ?case
  proof cases
    case skip
    with same show ?thesis by simp
  next
    case proto
    with same Cons.prems(3) show ?thesis
      by (simp add: obj_set_proto)
  next
    case new
    have "set ks \<inter> set (keys (acc0 @ [(k, f k)])) = {}"
      "proto_key \<notin> set (keys (acc0 @ [(k, f k)]))"
      using disj k new Cons.prems(3) by (auto simp: keys_def)
    from Cons.IH [OF d this] new fresh show ?thesis
      by (simp add: obj_set_fresh)
  qed
qed

lemma obj_get_entry: "distinct (keys kvs) \<Longrightarrow> (k, v) \<in> set kvs \<Longrightarrow> obj_get kvs k = v"
  by (simp add: obj_get_def keys_def)

lemma map_keys_entries:
  "distinct (keys kvs) \<Longrightarrow>
   map (\<lambda>k. (k, f (obj_get kvs k))) (keys kvs) = map (\<lambda>kv. (fst kv, f (snd kv))) kvs"
  by (auto simp: keys_def obj_get_entry)

lemma sanitize_JArr: "sanitize (JArr xs) = JArr (filter isValid (map sanitize xs))"
  by (simp add: sanitize_JArr_fold fold_push)

lemma sanitize_JObj:
  assumes "distinct (keys kvs)"
  shows "sanitize (JObj kvs) =
           JObj (filter (\<lambda>kv. fst kv \<noteq> proto_key \<and> isValid (snd kv))
                        (map (\<lambda>kv. (fst kv, sanitize (snd kv))) kvs))"
proof -
  have "fold (\<lambda>k r. let s = sanitize (obj_get kvs k) in if isValid s then obj_set r k s else r)
             (keys kvs) [] =
        filter (\<lambda>kv. fst kv \<noteq> proto_key \<and> isValid (snd kv))
               (map (\<lambda>k. (k, sanitize (obj_get kvs k))) (keys kvs))"
    using fold_obj_set [where ks = "keys kvs" and ?acc0.0 = "[]" and P = isValid
                       and f = "\<lambda>k. sanitize (obj_get kvs k)"] assms
    by (simp add: keys_def)
  then show ?thesis
    using assms by (simp add: sanitize_JObj_fold map_keys_entries)
qed

lemma isValid_JObj_entries:
  "distinct (keys kvs) \<Longrightarrow> isValid (JObj kvs) = (\<exists>kv \<in> set kvs. isValid (snd kv))"
  by (force simp: isValid_JObj list_ex_iff keys_def obj_get_entry)

subsection \<open>Trimming and sanitizing\<close>

lemma dropWhile_fix_prefix: "dropWhile P (t @ w) = t @ w \<Longrightarrow> dropWhile P t = t"
proof (cases t)
  case Nil
  then show ?thesis by simp
next
  case (Cons x t')
  assume a: "dropWhile P (t @ w) = t @ w"
  have "\<not> P x"
  proof
    assume "P x"
    with a Cons have "dropWhile P (t' @ w) = x # t' @ w" by simp
    then have "length (x # t' @ w) \<le> length (t' @ w)"
      using length_dropWhile_le [of P "t' @ w"] by simp
    then show False by simp
  qed
  with Cons show ?thesis by simp
qed

lemma trim_trim: "trim (trim s) = trim s"
proof -
  define u where "u = dropWhile is_ws s"
  define t where "t = rev (dropWhile is_ws (rev u))"
  have u: "u = t @ rev (takeWhile is_ws (rev u))"
    unfolding t_def by (metis rev_append rev_rev_ident takeWhile_dropWhile_id)
  have "dropWhile is_ws u = u"
    by (simp add: u_def)
  with u have "dropWhile is_ws (t @ rev (takeWhile is_ws (rev u))) = t @ rev (takeWhile is_ws (rev u))"
    by simp
  then have "dropWhile is_ws t = t"
    by (rule dropWhile_fix_prefix)
  then have "trim t = t"
    by (simp add: trim_def t_def)
  then show ?thesis
    by (simp add: trim_def t_def u_def)
qed

lemma keys_obj_set:
  "keys (obj_set r k v) =
     (if k \<in> set (keys r) \<or> k = proto_key then keys r else keys r @ [k])"
  by (induction r) (auto simp: keys_def rev_image_eqI)

lemma distinct_obj_set: "distinct (keys r) \<Longrightarrow> distinct (keys (obj_set r k v))"
  by (simp add: keys_obj_set)

lemma set_obj_set_subset: "set (obj_set r k v) \<subseteq> insert (k, v) (set r)"
  by (induction r) (auto split: if_splits)

lemma obj_set_written: "k \<noteq> proto_key \<Longrightarrow> (k, v) \<in> set (obj_set r k v)"
  by (induction r) auto

lemma obj_set_keeps:
  "(k, v) \<in> set r \<Longrightarrow> k' \<noteq> k \<or> v' = v \<Longrightarrow> (k, v) \<in> set (obj_set r k' v')"
  by (induction r) auto

lemma fold_obj_set_distinct:
  "distinct (keys acc0) \<Longrightarrow>
   distinct (keys (fold (\<lambda>k r. let s = f k in if P s then obj_set r k s else r) ks acc0))"
  by (induction ks arbitrary: acc0) (simp_all add: Let_def distinct_obj_set)

lemma fold_obj_set_no_proto:
  "proto_key \<notin> set (keys acc0) \<Longrightarrow>
   proto_key \<notin> set (keys (fold (\<lambda>k r. let s = f k in if P s then obj_set r k s else r) ks acc0))"
proof (induction ks arbitrary: acc0)
  case Nil
  then show ?case by simp
next
  case (Cons k ks)
  have "proto_key \<notin> set (keys (obj_set acc0 k (f k)))"
    using Cons.prems by (auto simp: keys_obj_set)
  from Cons.IH [OF this] Cons.IH [OF Cons.prems] show ?case
    by (simp add: Let_def)
qed

lemma fold_obj_set_sound:
  "kv \<in> set (fold (\<lambda>k r. let s = f k in if P s then obj_set r k s else r) ks acc0) \<Longrightarrow>
   kv \<in> set acc0 \<or> (fst kv \<in> set ks \<and> snd kv = f (fst kv) \<and> P (snd kv))"
proof (induction ks arbitrary: acc0)
  case Nil
  then show ?case by simp
next
  case (Cons k ks)
  show ?case
  proof (cases "P (f k)")
    case True
    with Cons.prems have "kv \<in> set (fold (\<lambda>k r. let s = f k in if P s then obj_set r k s else r) ks (obj_set acc0 k (f k)))"
      by simp
    from Cons.IH [OF this] True set_obj_set_subset [of acc0 k "f k"] show ?thesis
      by auto
  next
    case False
    with Cons.prems have "kv \<in> set (fold (\<lambda>k r. let s = f k in if P s then obj_set r k s else r) ks acc0)"
      by simp
    from Cons.IH [OF this] show ?thesis by auto
  qed
qed

lemma fold_obj_set_keeps:
  "(k, f k) \<in> set acc0 \<Longrightarrow>
   (k, f k) \<in> set (fold (\<lambda>k r. let s = f k in if P s then obj_set r k s else r) ks acc0)"
proof (induction ks arbitrary: acc0)
  case Nil
  then show ?case by simp
next
  case (Cons k' ks)
  have "(k, f k) \<in> set (obj_set acc0 k' (f k'))"
    using Cons.prems by (intro obj_set_keeps) auto
  with Cons show ?case
    by (simp add: Let_def)
qed

lemma fold_obj_set_complete:
  "k \<in> set ks \<Longrightarrow> P (f k) \<Longrightarrow> k \<noteq> proto_key \<Longrightarrow>
   (k, f k) \<in> set (fold (\<lambda>k r. let s = f k in if P s then obj_set r k s else r) ks acc0)"
proof (induction ks arbitrary: acc0)
  case Nil
  then show ?case by simp
next
  case (Cons k' ks)
  show ?case
  proof (cases "k' = k")
    case True
    with Cons.prems show ?thesis
      by (simp add: fold_obj_set_keeps obj_set_written)
  next
    case False
    with Cons show ?thesis
      by (simp add: Let_def)
  qed
qed

lemma obj_get_in: "k \<in> set (keys kvs) \<Longrightarrow> (k, obj_get kvs k) \<in> set kvs"
  by (induction kvs) (auto simp: keys_def obj_get_def)

lemma sanitize_JObj_entries: "sanitize (JObj kvs) = JObj (sanitized_entries kvs)"
  by (simp add: sanitize_JObj_fold sanitized_entries_def)

lemma distinct_sanitized_entries: "distinct (keys (sanitized_entries kvs))"
  unfolding sanitized_entries_def by (rule fold_obj_set_distinct) (simp add: keys_def)

lemma no_proto_sanitized_entries: "proto_key \<notin> set (keys (sanitized_entries kvs))"
  unfolding sanitized_entries_def by (rule fold_obj_set_no_proto) (simp add: keys_def)

lemma sanitized_entries_iff:
  "kv \<in> set (sanitized_entries kvs) \<longleftrightarrow>
     fst kv \<in> set (keys kvs) \<and> fst kv \<noteq> proto_key \<and>
     snd kv = sanitize (obj_get kvs (fst kv)) \<and> isValid (snd kv)"
proof
  assume m: "kv \<in> set (sanitized_entries kvs)"
  then have "fst kv \<in> set (keys (sanitized_entries kvs))"
    by (simp add: keys_def)
  with no_proto_sanitized_entries [of kvs] have "fst kv \<noteq> proto_key"
    by auto
  moreover from m
  have "fst kv \<in> set (keys kvs) \<and> snd kv = sanitize (obj_get kvs (fst kv)) \<and> isValid (snd kv)"
    unfolding sanitized_entries_def by (auto dest: fold_obj_set_sound)
  ultimately show "fst kv \<in> set (keys kvs) \<and> fst kv \<noteq> proto_key \<and>
      snd kv = sanitize (obj_get kvs (fst kv)) \<and> isValid (snd kv)"
    by blast
next
  assume a: "fst kv \<in> set (keys kvs) \<and> fst kv \<noteq> proto_key \<and>
      snd kv = sanitize (obj_get kvs (fst kv)) \<and> isValid (snd kv)"
  then have "(fst kv, sanitize (obj_get kvs (fst kv))) \<in> set (sanitized_entries kvs)"
    unfolding sanitized_entries_def
    by (intro fold_obj_set_complete [where f = "\<lambda>k. sanitize (obj_get kvs k)"]) auto
  with a show "kv \<in> set (sanitized_entries kvs)"
    by (metis prod.collapse)
qed

lemma sanitize_sanitize: "sanitize (sanitize t) = sanitize t"
proof (induction t)
  case (JArr xs)
  have "map sanitize (filter isValid (map sanitize xs)) = filter isValid (map sanitize xs)"
    using JArr by (induction xs) auto
  then show ?case
    by (simp add: sanitize_JArr)
next
  case (JObj kvs)
  let ?r = "sanitized_entries kvs"
  have fixed: "sanitize (snd kv) = snd kv" and ok: "fst kv \<noteq> proto_key \<and> isValid (snd kv)"
    if "kv \<in> set ?r" for kv
  proof -
    from that have k: "fst kv \<in> set (keys kvs)" and p: "fst kv \<noteq> proto_key"
      and v: "snd kv = sanitize (obj_get kvs (fst kv))" and i: "isValid (snd kv)"
      unfolding sanitized_entries_iff by blast+
    from p i show "fst kv \<noteq> proto_key \<and> isValid (snd kv)" by blast
    from JObj [OF obj_get_in [OF k]] v show "sanitize (snd kv) = snd kv"
      by simp
  qed
  have "map (\<lambda>kv. (fst kv, sanitize (snd kv))) ?r = ?r"
    by (rule map_idI) (simp add: fixed)
  moreover have "filter (\<lambda>kv. fst kv \<noteq> proto_key \<and> isValid (snd kv)) ?r = ?r"
    by (rule filter_True) (simp add: ok)
  moreover have "sanitize (JObj ?r) =
      JObj (filter (\<lambda>kv. fst kv \<noteq> proto_key \<and> isValid (snd kv))
                   (map (\<lambda>kv. (fst kv, sanitize (snd kv))) ?r))"
    by (rule sanitize_JObj) (rule distinct_sanitized_entries)
  ultimately have "sanitize (JObj ?r) = JObj ?r"
    by simp
  then show ?case
    by (simp add: sanitize_JObj_entries)
qed (simp_all add: trim_trim)

text \<open>
  What \<open>sanitize\<close> does on containers. An array becomes the array of the sanitized
  elements that pass \<open>isValid\<close>, in input order. A record keeps a key exactly when the
  key is not \<open>__proto__\<close> and the sanitized value under it passes \<open>isValid\<close>, and the
  key then holds that sanitized value; for a record with unique keys the result is the
  list of the kept entries in input order.
\<close>

lemma sanitize_containers:
  "sanitize (JArr xs) = JArr (filter isValid (map sanitize xs)) \<and>
   length (as_array (sanitize (JArr xs))) \<le> length xs \<and>
   (\<forall>k. k \<in> set (keys (as_record (sanitize (JObj kvs)))) \<longleftrightarrow>
          k \<in> set (keys kvs) \<and> k \<noteq> proto_key \<and> isValid (sanitize (obj_get kvs k))) \<and>
   (\<forall>k \<in> set (keys (as_record (sanitize (JObj kvs)))).
      obj_get (as_record (sanitize (JObj kvs))) k = sanitize (obj_get kvs k)) \<and>
   (distinct (keys kvs) \<longrightarrow>
      sanitize (JObj kvs) =
        JObj (filter (\<lambda>kv. fst kv \<noteq> proto_key \<and> isValid (snd kv))
                     (map (\<lambda>kv. (fst kv, sanitize (snd kv))) kvs)))"
proof (intro conjI allI ballI impI)
  show "sanitize (JArr xs) = JArr (filter isValid (map sanitize xs))"
    by (rule sanitize_JArr)
  show "length (as_array (sanitize (JArr xs))) \<le> length xs"
    using length_filter_le [of isValid "map sanitize xs"] by (simp add: sanitize_JArr)
  show "k \<in> set (keys (as_record (sanitize (JObj kvs)))) \<longleftrightarrow>
          k \<in> set (keys kvs) \<and> k \<noteq> proto_key \<and> isValid (sanitize (obj_get kvs k))" for k
  proof
    assume "k \<in> set (keys (as_record (sanitize (JObj kvs))))"
    then obtain v where "(k, v) \<in> set (sanitized_entries kvs)"
      by (auto simp: sanitize_JObj_entries keys_def)
    then show "k \<in> set (keys kvs) \<and> k \<noteq> proto_key \<and> isValid (sanitize (obj_get kvs k))"
      unfolding sanitized_entries_iff by auto
  next
    assume "k \<in> set (keys kvs) \<and> k \<noteq> proto_key \<and> isValid (sanitize (obj_get kvs k))"
    then have "(k, sanitize (obj_get kvs k)) \<in> set (sanitized_entries kvs)"
      by (simp add: sanitized_entries_iff)
    then show "k \<in> set (keys (as_record (sanitize (JObj kvs))))"
      by (force simp: sanitize_JObj_entries keys_def)
  qed
  show "obj_get (as_record (sanitize (JObj kvs))) k = sanitize (obj_get kvs k)"
    if "k \<in> set (keys (as_record (sanitize (JObj kvs))))" for k
  proof -
    from that have "k \<in> set (keys (sanitized_entries kvs))"
      by (simp add: sanitize_JObj_entries)
    then have "(k, obj_get (sanitized_entries kvs) k) \<in> set (sanitized_entries kvs)"
      by (rule obj_get_in)
    then show ?thesis
      unfolding sanitized_entries_iff by (simp add: sanitize_JObj_entries)
  qed
  show "sanitize (JObj kvs) =
        JObj (filter (\<lambda>kv. fst kv \<noteq> proto_key \<and> isValid (snd kv))
                     (map (\<lambda>kv. (fst kv, sanitize (snd kv))) kvs))"
    if "distinct (keys kvs)"
    using that by (rule sanitize_JObj)
qed

text \<open>
  Where no record of the tree has the own key \<open>__proto__\<close>, sanitizing keeps validity.
\<close>

lemma isValid_sanitize_no_proto: "no_proto_key t \<Longrightarrow> isValid (sanitize t) = isValid t"
proof (induction t)
  case (JArr xs)
  then show ?case
    by (auto simp: sanitize_JArr list_ex_iff list_all_iff)
next
  case (JObj kvs)
  have np: "k \<noteq> proto_key" and sub: "no_proto_key (obj_get kvs k)"
    if "k \<in> set (keys kvs)" for k
    using JObj.prems obj_get_in [OF that] by (auto simp: list_all_iff)
  have ih: "isValid (sanitize (obj_get kvs k)) = isValid (obj_get kvs k)"
    if "k \<in> set (keys kvs)" for k
    using JObj.IH [OF obj_get_in [OF that]] sub [OF that] by simp
  have "isValid (sanitize (JObj kvs)) \<longleftrightarrow> (\<exists>kv \<in> set (sanitized_entries kvs). isValid (snd kv))"
    by (simp add: sanitize_JObj_entries isValid_JObj_entries distinct_sanitized_entries)
  also have "\<dots> \<longleftrightarrow> (\<exists>k \<in> set (keys kvs). isValid (sanitize (obj_get kvs k)))"
  proof
    assume "\<exists>kv \<in> set (sanitized_entries kvs). isValid (snd kv)"
    then obtain kv where "kv \<in> set (sanitized_entries kvs)" "isValid (snd kv)"
      by blast
    then have "fst kv \<in> set (keys kvs)" "isValid (sanitize (obj_get kvs (fst kv)))"
      unfolding sanitized_entries_iff by auto
    then show "\<exists>k \<in> set (keys kvs). isValid (sanitize (obj_get kvs k))"
      by blast
  next
    assume "\<exists>k \<in> set (keys kvs). isValid (sanitize (obj_get kvs k))"
    then obtain k where k: "k \<in> set (keys kvs)" "isValid (sanitize (obj_get kvs k))"
      by blast
    with np have "(k, sanitize (obj_get kvs k)) \<in> set (sanitized_entries kvs)"
      by (simp add: sanitized_entries_iff)
    with k show "\<exists>kv \<in> set (sanitized_entries kvs). isValid (snd kv)"
      by force
  qed
  also have "\<dots> \<longleftrightarrow> (\<exists>k \<in> set (keys kvs). isValid (obj_get kvs k))"
    using ih by auto
  also have "\<dots> \<longleftrightarrow> isValid (JObj kvs)"
    by (simp add: isValid_JObj list_ex_iff)
  finally show ?case .
qed (simp_all add: trim_trim)

subsection \<open>Equality\<close>

lemma areEqual_typeof_neq: "typeof a \<noteq> typeof b \<Longrightarrow> areEqual a b w c = False"
  by (subst areEqual.simps) simp

lemma areEqual_JStr:
  "areEqual (JStr s1) (JStr s2) w c =
     (let v1 = (if w then trim s1 else s1); v2 = (if w then trim s2 else s2)
      in if c then toLocaleLowerCase v1 = toLocaleLowerCase v2 else v1 = v2)"
  by (subst areEqual.simps) simp

lemma areEqual_JArr:
  "areEqual (JArr a1) (JArr a2) w c =
     (length a1 = length a2 \<and>
      list_all (\<lambda>(v, index). areEqual v (arr_get a1 index) w c) (zip a2 [0 ..< length a2]))"
  by (subst areEqual.simps) simp

lemma areEqual_JObj:
  "areEqual (JObj o1) (JObj o2) w c =
     (length (keys o1) = length (keys o2) \<and>
      list_all (\<lambda>key. areEqual (obj_get o1 key) (obj_get o2 key) w c) (keys o1))"
  by (subst areEqual.simps) (simp add: Let_def)

lemma areEqual_JArr_JObj [simp]:
  "areEqual (JArr a1) (JObj o2) w c = False"
  "areEqual (JObj o1) (JArr a2) w c = False"
  by (subst areEqual.simps, simp)+

lemma areEqual_JNull [simp]:
  "areEqual JNull b w c = (b = JNull)"
  "areEqual a JNull w c = (a = JNull)"
  by (subst areEqual.simps, cases b; cases a; simp add: strict_eq_def)+

lemma areEqual_prim [simp]:
  "areEqual JUndefined JUndefined w c = True"
  "areEqual (JBool p) (JBool q) w c = (p = q)"
  "areEqual (JNum m) (JNum n) w c = (m \<noteq> NaN \<and> m = n)"
  "areEqual (JBigInt i) (JBigInt j) w c = (i = j)"
  "areEqual (JSymbol y) (JSymbol z) w c = (y = z)"
  "areEqual (JFun f) (JFun g) w c = (f = g)"
  by (subst areEqual.simps, simp add: strict_eq_def)+

lemma obj_get_absent: "k \<notin> set (keys kvs) \<Longrightarrow> obj_get kvs k = JUndefined"
proof -
  assume "k \<notin> set (keys kvs)"
  then have "map_of kvs k = None"
    by (simp add: map_of_eq_None_iff keys_def)
  then show ?thesis
    by (simp add: obj_get_def)
qed

lemma areEqual_typeof: "areEqual a b w c \<Longrightarrow> typeof a = typeof b"
  using areEqual_typeof_neq by blast

lemma typeof_undefined: "typeof v = TUndefined \<longleftrightarrow> v = JUndefined"
  by (cases v) simp_all

lemma areEqual_defined_key:
  assumes "areEqual (obj_get o1 k) (obj_get o2 k) w c" "obj_get o1 k \<noteq> JUndefined"
  shows "k \<in> set (keys o2)"
proof (rule ccontr)
  assume "k \<notin> set (keys o2)"
  then have "obj_get o2 k = JUndefined"
    by (rule obj_get_absent)
  with assms(1) have "typeof (obj_get o1 k) = TUndefined"
    by (auto dest: areEqual_typeof)
  with assms(2) show False
    by (simp add: typeof_undefined)
qed

lemma areEqual_JArr_nth:
  "areEqual (JArr a1) (JArr a2) w c \<longleftrightarrow>
     length a1 = length a2 \<and> (\<forall>i < length a2. areEqual (a2 ! i) (a1 ! i) w c)"
proof (cases "length a1 = length a2")
  case True
  have "list_all (\<lambda>(v, index). areEqual v (arr_get a1 index) w c) (zip a2 [0 ..< length a2]) \<longleftrightarrow>
        (\<forall>i < length a2. areEqual (a2 ! i) (arr_get a1 i) w c)"
    by (simp add: list_all_length)
  with True show ?thesis
    by (simp add: areEqual_JArr arr_get_def)
next
  case False
  then show ?thesis
    by (simp add: areEqual_JArr)
qed

lemma areEqual_JObj_keys:
  "areEqual (JObj o1) (JObj o2) w c \<longleftrightarrow>
     length o1 = length o2 \<and> (\<forall>k \<in> set (keys o1). areEqual (obj_get o1 k) (obj_get o2 k) w c)"
  by (simp add: areEqual_JObj list_all_iff keys_def)

lemma same_keys:
  assumes "distinct (keys o1)" "distinct (keys o2)" "length o1 = length o2"
    "set (keys o1) \<subseteq> set (keys o2)"
  shows "set (keys o1) = set (keys o2)"
proof -
  have "card (set (keys o1)) = length (keys o1)" "card (set (keys o2)) = length (keys o2)"
    using assms(1,2) by (simp_all only: distinct_card)
  moreover have "length (keys o1) = length o1" "length (keys o2) = length o2"
    by (simp_all add: keys_def)
  ultimately have "card (set (keys o1)) = card (set (keys o2))"
    using assms(3) by simp
  with assms(4) show ?thesis
    by (intro card_subset_eq) simp_all
qed

lemma obj_get_defined:
  "list_all (\<lambda>kv. Q (fst kv) \<and> snd kv \<noteq> JUndefined \<and> P (snd kv)) kvs \<Longrightarrow>
   k \<in> set (keys kvs) \<Longrightarrow> obj_get kvs k \<noteq> JUndefined \<and> P (obj_get kvs k)"
  using obj_get_in [of k kvs] by (auto simp: list_all_iff)

lemma obj_get_unique:
  "list_all (\<lambda>kv. P (snd kv)) kvs \<Longrightarrow> k \<in> set (keys kvs) \<Longrightarrow> P (obj_get kvs k)"
  using obj_get_in [of k kvs] by (auto simp: list_all_iff)

lemma strict_eq_sym: "strict_eq a b = strict_eq b a"
  by (cases a; cases b) (auto simp: strict_eq_def)

text \<open>
  Where keys are unique, no record stores \<open>undefined\<close> and no key names a member of
  \<open>Object.prototype\<close>, a key of the first record that the second lacks is detected,
  and \<open>areEqual\<close> is symmetric.
\<close>

lemma areEqual_sym_defined:
  "unique_keys a \<Longrightarrow> unique_keys b \<Longrightarrow> plain_entries a \<Longrightarrow> plain_entries b \<Longrightarrow>
   areEqual a b w c = areEqual b a w c"
proof (induction a arbitrary: b)
  case (JArr xs)
  show ?case
  proof (cases b)
    case b: (JArr ys)
    have "areEqual (ys ! i) (xs ! i) w c = areEqual (xs ! i) (ys ! i) w c"
      if "i < length xs" "i < length ys" for i
    proof -
      from that JArr.prems b have "unique_keys (xs ! i)" "unique_keys (ys ! i)"
        "plain_entries (xs ! i)" "plain_entries (ys ! i)"
        by (simp_all add: list_all_length)
      with JArr.IH [of "xs ! i" "ys ! i"] that show ?thesis
        by simp
    qed
    then show ?thesis
      unfolding b areEqual_JArr_nth by auto
  qed (simp_all add: areEqual_typeof_neq)
next
  case (JObj o1)
  show ?case
  proof (cases b)
    case b: (JObj o2)
    have d: "distinct (keys o1)" "distinct (keys o2)"
      using JObj.prems b by simp_all
    have ih: "areEqual (obj_get o1 k) (obj_get o2 k) w c = areEqual (obj_get o2 k) (obj_get o1 k) w c"
      if "k \<in> set (keys o1)" "k \<in> set (keys o2)" for k
    proof -
      have "unique_keys (obj_get o1 k)" "unique_keys (obj_get o2 k)"
        using JObj.prems b that by (simp_all add: obj_get_unique)
      moreover have "plain_entries (obj_get o1 k)" "plain_entries (obj_get o2 k)"
        using JObj.prems b that obj_get_defined [of _ plain_entries] by simp_all
      ultimately show ?thesis
        using JObj.IH [OF obj_get_in [OF that(1)], of "obj_get o1 k" "obj_get o2 k"] by simp
    qed
    have def1: "obj_get o1 k \<noteq> JUndefined" if "k \<in> set (keys o1)" for k
      using JObj.prems that obj_get_defined [of _ plain_entries o1 k] by simp
    have def2: "obj_get o2 k \<noteq> JUndefined" if "k \<in> set (keys o2)" for k
      using JObj.prems b that obj_get_defined [of _ plain_entries o2 k] by simp
    show ?thesis
    proof
      assume l: "areEqual (JObj o1) b w c"
      then have len: "length o1 = length o2"
        and eq: "\<And>k. k \<in> set (keys o1) \<Longrightarrow> areEqual (obj_get o1 k) (obj_get o2 k) w c"
        unfolding b areEqual_JObj_keys by simp_all
      have "set (keys o1) \<subseteq> set (keys o2)"
        using eq def1 areEqual_defined_key by blast
      with d len have "set (keys o1) = set (keys o2)"
        by (rule same_keys)
      with eq ih len show "areEqual b (JObj o1) w c"
        unfolding b areEqual_JObj_keys by simp
    next
      assume r: "areEqual b (JObj o1) w c"
      then have len: "length o2 = length o1"
        and eq: "\<And>k. k \<in> set (keys o2) \<Longrightarrow> areEqual (obj_get o2 k) (obj_get o1 k) w c"
        unfolding b areEqual_JObj_keys by simp_all
      have "set (keys o2) \<subseteq> set (keys o1)"
        using eq def2 areEqual_defined_key by blast
      with d(2,1) len have "set (keys o2) = set (keys o1)"
        by (rule same_keys)
      with eq ih len show "areEqual (JObj o1) b w c"
        unfolding b areEqual_JObj_keys by simp
    qed
  qed (simp_all add: areEqual_typeof_neq)
next
  case (JStr s)
  show ?case
    by (cases b) (auto simp: areEqual_JStr areEqual_typeof_neq Let_def)
next
  case JUndefined
  show ?case by (cases b) (auto simp: areEqual_typeof_neq)
next
  case JNull
  show ?case by (cases b) (auto simp: areEqual_typeof_neq)
next
  case (JBool x)
  show ?case by (cases b) (auto simp: areEqual_typeof_neq)
next
  case (JNum x)
  show ?case by (cases b) (auto simp: areEqual_typeof_neq)
next
  case (JBigInt x)
  show ?case by (cases b) (auto simp: areEqual_typeof_neq)
next
  case (JSymbol x)
  show ?case by (cases b) (auto simp: areEqual_typeof_neq)
next
  case (JFun x)
  show ?case by (cases b) (auto simp: areEqual_typeof_neq)
qed

text \<open>
  Where no value of the first record is \<open>undefined\<close> and none of its keys names a
  member of \<open>Object.prototype\<close>, two records are equal exactly when they have the same
  number of keys and every key of the first has an equal value in the second.
\<close>

lemma areEqual_records_defined:
  assumes "\<forall>kv \<in> set o1. fst kv \<notin> set object_prototype_names \<and> snd kv \<noteq> JUndefined"
  shows "areEqual (JObj o1) (JObj o2) w c \<longleftrightarrow>
     length o1 = length o2 \<and>
     (\<forall>k \<in> set (keys o1). \<exists>v. map_of o2 k = Some v \<and> areEqual (obj_get o1 k) v w c)"
proof -
  have def1: "obj_get o1 k \<noteq> JUndefined" if "k \<in> set (keys o1)" for k
    using assms obj_get_in [OF that] by force
  have "areEqual (obj_get o1 k) (obj_get o2 k) w c \<longleftrightarrow>
        (\<exists>v. map_of o2 k = Some v \<and> areEqual (obj_get o1 k) v w c)"
    if "k \<in> set (keys o1)" for k
  proof (cases "map_of o2 k")
    case None
    then have "k \<notin> set (keys o2)"
      by (simp add: map_of_eq_None_iff keys_def)
    with def1 [OF that] areEqual_defined_key [of o1 k o2 w c] None show ?thesis
      by auto
  next
    case (Some v)
    then show ?thesis
      by (simp add: obj_get_def)
  qed
  then show ?thesis
    unfolding areEqual_JObj_keys by auto
qed

subsection \<open>Title case and key renaming\<close>

lemma title_piece_substring:
  "toLocaleUpperCase (substring v 0 (Some 1)) @ toLocaleLowerCase (substring v 1 None) =
     spec_title_piece v"
  by (cases v) (simp_all add: substring_def toLocaleUpperCase_def toLocaleLowerCase_def Let_def)

lemma toTitleCase_JStr:
  "toTitleCase (JStr s) p = JStr (join '' '' (map spec_title_piece (split s p)))"
  by (simp add: toTitleCase_def title_piece_substring del: One_nat_def)

lemma split_from_nonempty: "split_from sep cur rest \<noteq> []"
  by (induction sep cur rest rule: split_from.induct) simp_all

lemma join_Cons: "ys \<noteq> [] \<Longrightarrow> join sep (x # ys) = x @ sep @ join sep ys"
  by (cases ys) simp_all

lemma join_split_from:
  "sep \<noteq> [] \<Longrightarrow> join sep (split_from sep cur rest) = cur @ rest"
proof (induction sep cur rest rule: split_from.induct)
  case (1 sep cur)
  show ?case by simp
next
  case (2 sep cur c cs)
  show ?case
  proof (cases "take (length sep) (c # cs) = sep")
    case True
    let ?rest = "drop (length sep - 1) cs"
    have "take (length sep) (c # cs) @ drop (length sep) (c # cs) = c # cs"
      by (rule append_take_drop_id)
    moreover have "drop (length sep) (c # cs) = ?rest"
      using \<open>sep \<noteq> []\<close> by (cases sep) simp_all
    ultimately have whole: "sep @ ?rest = c # cs"
      using True by simp
    have "join sep (split_from sep cur (c # cs)) = join sep (cur # split_from sep [] ?rest)"
      using True by simp
    also have "\<dots> = cur @ sep @ join sep (split_from sep [] ?rest)"
      by (rule join_Cons) (rule split_from_nonempty)
    also have "join sep (split_from sep [] ?rest) = ?rest"
      using 2 True by simp
    finally show ?thesis
      using whole by simp
  next
    case False
    with 2 show ?thesis by simp
  qed
qed

lemma occurs_at_prefix:
  assumes "sep \<noteq> []" "occurs_at sep cur i"
  shows "i < length cur \<and> occurs_at sep (cur @ rest) i"
proof -
  from assms(2) have "length (take (length sep) (drop i cur)) = length sep"
    unfolding occurs_at_def by simp
  then have len: "length sep \<le> length (drop i cur)"
    by simp
  with assms(1) have "i < length cur"
    by (cases sep) auto
  moreover from len assms(2) have "occurs_at sep (cur @ rest) i"
    unfolding occurs_at_def by simp
  ultimately show ?thesis ..
qed

lemma split_from_no_occurrence:
  "sep \<noteq> [] \<Longrightarrow> \<forall>i < length cur. \<not> occurs_at sep (cur @ rest) i \<Longrightarrow>
   seg \<in> set (split_from sep cur rest) \<Longrightarrow> \<not> occurs_at sep seg i"
proof (induction sep cur rest arbitrary: i rule: split_from.induct)
  case (1 sep cur)
  then show ?case
    using occurs_at_prefix [of sep cur i "[]"] by auto
next
  case (2 sep cur c cs)
  show ?case
  proof (cases "take (length sep) (c # cs) = sep")
    case True
    with "2.prems" consider "seg = cur"
      | "seg \<in> set (split_from sep [] (drop (length sep - 1) cs))"
      by auto
    then show ?thesis
    proof cases
      case 1
      with "2.prems" show ?thesis
        using occurs_at_prefix [of sep cur i "c # cs"] by auto
    next
      case 2
      with "2.IH"(1) [OF True] "2.prems"(1) show ?thesis
        by simp
    qed
  next
    case False
    have "\<not> occurs_at sep ((cur @ [c]) @ cs) j" if "j < length (cur @ [c])" for j
    proof (cases "j < length cur")
      case True
      with "2.prems" show ?thesis by simp
    next
      case f: False
      with that have "j = length cur" by simp
      with False show ?thesis
        by (simp add: occurs_at_def)
    qed
    with "2.IH"(2) [OF False] "2.prems" False show ?thesis
      by simp
  qed
qed

lemma split_from_no_sep:
  "sep \<noteq> [] \<Longrightarrow> set sep \<inter> set rest = {} \<Longrightarrow> split_from sep cur rest = [cur @ rest]"
proof (induction sep cur rest rule: split_from.induct)
  case (1 sep cur)
  show ?case by simp
next
  case (2 sep cur c cs)
  have "take (length sep) (c # cs) \<noteq> sep"
  proof
    assume "take (length sep) (c # cs) = sep"
    then have "set sep \<subseteq> set (c # cs)"
      by (metis set_take_subset)
    with 2 show False
      by (cases sep) auto
  qed
  with 2 show ?case by simp
qed

lemma transformedKey_no_underscore:
  "CHR ''_'' \<notin> set key \<Longrightarrow> transformedKey key = toLocaleLowerCase key"
  by (simp add: transformedKey_def split_def split_from_no_sep)

lemma camelizeObject_camelize: "camelizeObject v = camelize v"
proof (cases "typeof v \<noteq> TObject \<or> v = JNull \<or> isArray v")
  case True
  then show ?thesis
    by (subst camelizeObject.simps) (auto simp: camelize_def)
next
  case False
  then show ?thesis
    by (simp add: camelize_def)
qed

lemma lower_char_underscore: "lower_char c = CHR ''_'' \<Longrightarrow> c = CHR ''_''"
proof (cases "map_of (zip upper_letters lower_letters) c")
  case None
  assume "lower_char c = CHR ''_''"
  with None show ?thesis
    by (simp add: lower_char_def)
next
  case (Some l)
  assume "lower_char c = CHR ''_''"
  with Some have "l = CHR ''_''"
    by (simp add: lower_char_def)
  moreover from Some have "l \<in> set lower_letters"
    by (auto dest!: map_of_SomeD set_zip_rightD)
  ultimately show ?thesis
    by (simp add: lower_letters_def)
qed

lemma toLocaleLowerCase_not_proto:
  "CHR ''_'' \<notin> set key \<Longrightarrow> toLocaleLowerCase key \<noteq> proto_key"
proof
  assume n: "CHR ''_'' \<notin> set key" and e: "toLocaleLowerCase key = proto_key"
  have "CHR ''_'' \<in> set proto_key"
    by (simp add: proto_key_def)
  with e have "CHR ''_'' \<in> lower_char ` set key"
    by (simp add: toLocaleLowerCase_def flip: set_map)
  then obtain c where "c \<in> set key" "lower_char c = CHR ''_''"
    by auto
  with n show False
    by (auto dest: lower_char_underscore)
qed

lemma keys_fold_obj_set_mono:
  "set (keys acc0) \<subseteq> set (keys (fold (\<lambda>key r. obj_set r (g key) (h key)) ks acc0))"
proof (induction ks arbitrary: acc0)
  case Nil
  show ?case by simp
next
  case (Cons k ks)
  have "set (keys acc0) \<subseteq> set (keys (obj_set acc0 (g k) (h k)))"
    by (auto simp: keys_obj_set)
  with Cons [of "obj_set acc0 (g k) (h k)"] show ?case
    by auto
qed

lemma keys_fold_obj_set_written:
  "k \<in> set ks \<Longrightarrow> g k \<noteq> proto_key \<Longrightarrow>
   g k \<in> set (keys (fold (\<lambda>key r. obj_set r (g key) (h key)) ks acc0))"
proof (induction ks arbitrary: acc0)
  case Nil
  then show ?case by simp
next
  case (Cons k' ks)
  show ?case
  proof (cases "k' = k")
    case True
    with Cons.prems have "g k \<in> set (keys (obj_set acc0 (g k') (h k')))"
      by (auto simp: keys_obj_set)
    with keys_fold_obj_set_mono [of "obj_set acc0 (g k') (h k')" g h ks] show ?thesis
      by auto
  next
    case False
    with Cons show ?thesis by simp
  qed
qed

lemma keys_camelize_JObj:
  "key \<in> set (keys kvs) \<Longrightarrow> transformedKey key \<noteq> proto_key \<Longrightarrow>
   transformedKey key \<in> set (keys (as_record (camelize (JObj kvs))))"
proof -
  assume k: "key \<in> set (keys kvs)" and n: "transformedKey key \<noteq> proto_key"
  have "camelize (JObj kvs) =
      JObj (fold (\<lambda>key r. obj_set r (transformedKey key) (camelizeObject (obj_get kvs key)))
                 (keys kvs) [])"
    unfolding camelize_def by (subst camelizeObject.simps) (simp add: Let_def)
  with keys_fold_obj_set_written [of key "keys kvs" transformedKey
      "\<lambda>key. camelizeObject (obj_get kvs key)" "[]"] k n
  show ?thesis
    by simp
qed

lemma camelize_single:
  "transformedKey key \<noteq> proto_key \<Longrightarrow>
   camelize (JObj [(key, v)]) = JObj [(transformedKey key, camelize v)]"
  unfolding camelize_def [of "JObj _"]
  by (subst camelizeObject.simps) (simp add: keys_def obj_get_def camelizeObject_camelize)

lemma camelize_leaf:
  "camelize (JStr s) = JStr s"
  "camelize JNull = JNull"
  "camelize JUndefined = JUndefined"
  "camelize (JNum n) = JNum n"
  "camelize (JBool b) = JBool b"
  by (simp_all add: camelize_def)

subsection \<open>First element per key\<close>

lemma proto_key_inherited: "proto_key \<in> set object_prototype_names"
  by (simp add: object_prototype_names_def)

lemma map_of_obj_set: "k \<noteq> proto_key \<Longrightarrow> map_of (obj_set r k v) = (map_of r)(k \<mapsto> v)"
  by (induction r) (auto simp: fun_eq_iff)

text \<open>
  Where every element is truthy and no generated key names a member of
  \<open>Object.prototype\<close> (the code reads \<open>accumulator[key]\<close>, which finds such a member),
  \<open>normalize\<close> maps each valid key to the first element that produces it, and has
  no other key.
\<close>

lemma reduce_normalize:
  assumes "\<forall>x \<in> set xs. truthy x" "\<forall>kv \<in> set acc0. truthy (snd kv)"
    "\<forall>x \<in> set xs. key x \<notin> set object_prototype_names"
  shows "\<exists>r. reduce (\<lambda>accumulator currentItem.
                 if \<not> isValid (JStr (key currentItem)) then Inr accumulator
                 else if \<not> truthy (obj_get accumulator (key currentItem))
                   then Inr (obj_set accumulator (key currentItem) currentItem)
                 else Inr accumulator) xs acc0 = Inr r \<and>
             (\<forall>k. map_of r k =
                (case map_of acc0 k of
                   Some v \<Rightarrow> Some v
                 | None \<Rightarrow> if isValid (JStr k) then find (\<lambda>x. key x = k) xs else None))"
  using assms
proof (induction xs arbitrary: acc0)
  case Nil
  then show ?case
    by (auto split: option.splits)
next
  case (Cons x xs)
  let ?step = "\<lambda>accumulator currentItem.
                 if \<not> isValid (JStr (key currentItem)) then Inr accumulator
                 else if \<not> truthy (obj_get accumulator (key currentItem))
                   then Inr (obj_set accumulator (key currentItem) currentItem)
                 else Inr accumulator"
  have present: "truthy (obj_get acc0 k) \<longleftrightarrow> map_of acc0 k \<noteq> None" for k
  proof (cases "map_of acc0 k")
    case None
    then show ?thesis by (simp add: obj_get_def)
  next
    case (Some v)
    then have "(k, v) \<in> set acc0"
      by (rule map_of_SomeD)
    with Cons.prems(2) Some show ?thesis
      by (force simp: obj_get_def)
  qed
  consider (skip) "\<not> isValid (JStr (key x))"
    | (new) "isValid (JStr (key x))" "map_of acc0 (key x) = None"
    | (old) "isValid (JStr (key x))" "map_of acc0 (key x) \<noteq> None"
    by blast
  then show ?case
  proof cases
    case skip
    then have "reduce ?step (x # xs) acc0 = reduce ?step xs acc0"
      by simp
    moreover from Cons.IH [of acc0] Cons.prems obtain r where
      "reduce ?step xs acc0 = Inr r"
      "\<forall>k. map_of r k = (case map_of acc0 k of Some v \<Rightarrow> Some v
          | None \<Rightarrow> if isValid (JStr k) then find (\<lambda>x. key x = k) xs else None)"
      by auto
    ultimately show ?thesis
      using skip by (auto split: option.splits)
  next
    case new
    let ?acc = "obj_set acc0 (key x) x"
    from new present have "reduce ?step (x # xs) acc0 = reduce ?step xs ?acc"
      by simp
    moreover have "\<forall>kv \<in> set ?acc. truthy (snd kv)"
      using Cons.prems set_obj_set_subset [of acc0 "key x" x] by auto
    with Cons.IH [of ?acc] Cons.prems obtain r where
      "reduce ?step xs ?acc = Inr r"
      "\<forall>k. map_of r k = (case map_of ?acc k of Some v \<Rightarrow> Some v
          | None \<Rightarrow> if isValid (JStr k) then find (\<lambda>x. key x = k) xs else None)"
      by auto
    moreover have "key x \<noteq> proto_key"
      using Cons.prems(3) proto_key_inherited by auto
    ultimately show ?thesis
      using new by (auto simp: map_of_obj_set split: option.splits)
  next
    case old
    with present have "reduce ?step (x # xs) acc0 = reduce ?step xs acc0"
      by simp
    moreover from Cons.IH [of acc0] Cons.prems obtain r where
      "reduce ?step xs acc0 = Inr r"
      "\<forall>k. map_of r k = (case map_of acc0 k of Some v \<Rightarrow> Some v
          | None \<Rightarrow> if isValid (JStr k) then find (\<lambda>x. key x = k) xs else None)"
      by auto
    ultimately show ?thesis
      using old by (auto split: option.splits)
  qed
qed

lemma normalize_first_of_truthy:
  assumes "\<forall>x \<in> set xs. truthy x" "\<forall>x \<in> set xs. key x \<notin> set object_prototype_names"
  shows "\<exists>r. normalize (JArr xs) (Callable (\<lambda>x. Inr (key x))) = Inr r \<and>
             (\<forall>k. map_of r k = (if isValid (JStr k) then find (\<lambda>x. key x = k) xs else None))"
  using reduce_normalize [OF assms(1) _ assms(2), of "[]"] by (simp add: normalize_def)

section \<open>Claims\<close>

text \<open>
  C1. \<open>sanitize\<close> is to keep a key of a record exactly when the sanitized value under it
  passes \<open>isValid\<close>. The code writes the kept entries with \<open>result[k] = v\<close>, and for the
  key \<open>__proto__\<close> that write goes to the accessor inherited from \<open>Object.prototype\<close>
  and adds no key: the record with the one own key \<open>__proto__\<close> holding \<open>"x"\<close>, as
  \<open>JSON.parse\<close> builds it, has a valid sanitized value under that key and is sanitized
  to the empty record.
\<close>

theorem sanitize_drops_valid_proto_entry:
  "''__proto__'' \<in> set (keys [(''__proto__'', JStr ''x'')]) \<and>
   isValid (sanitize (obj_get [(''__proto__'', JStr ''x'')] ''__proto__'')) \<and>
   sanitize (JObj [(''__proto__'', JStr ''x'')]) = JObj [] \<and>
   ''__proto__'' \<notin> set (keys (as_record (sanitize (JObj [(''__proto__'', JStr ''x'')]))))"
  by (simp add: sanitize_JObj keys_def obj_get_def proto_key_def trim_def is_ws_def)

text \<open>
  C2. Two records are to be equal exactly when they have the same number of keys and
  every key of the first has an equal value in the second under the same key, so that a
  key that only one side has is always detected. The code reads a missing key as
  \<open>undefined\<close> and compares it like a stored value: the records \<open>{a: undefined}\<close> and
  \<open>{b: undefined}\<close>, which share no key, are reported equal under every flag
  combination.
\<close>

theorem areEqual_records_with_different_keys:
  "areEqual (JObj [(''a'', JUndefined)]) (JObj [(''b'', JUndefined)]) w c \<and>
   ''a'' \<notin> set (keys [(''b'', JUndefined)]) \<and>
   ''b'' \<notin> set (keys [(''a'', JUndefined)])"
  by (simp add: areEqual_JObj keys_def obj_get_def)

text \<open>
  C3. An array is valid exactly when one of its elements is valid, and a record exactly
  when the value under one of its keys is valid: for a record with unique keys, when
  one of its entries has a valid value, whatever the keys are. Hence the empty array,
  the empty record and a record all of whose values are invalid are invalid.
\<close>

theorem isValid_containers:
  "(isValid (JArr xs) \<longleftrightarrow> (\<exists>x \<in> set xs. isValid x)) \<and>
   (isValid (JObj kvs) \<longleftrightarrow> (\<exists>k \<in> set (keys kvs). isValid (obj_get kvs k))) \<and>
   (distinct (keys kvs) \<longrightarrow> (isValid (JObj kvs) \<longleftrightarrow> (\<exists>kv \<in> set kvs. isValid (snd kv)))) \<and>
   \<not> isValid (JArr []) \<and>
   \<not> isValid (JObj []) \<and>
   ((\<forall>kv \<in> set kvs. \<not> isValid (snd kv)) \<longrightarrow> \<not> isValid (JObj kvs))"
proof (intro conjI impI)
  show "isValid (JArr xs) \<longleftrightarrow> (\<exists>x \<in> set xs. isValid x)"
    by (simp add: list_ex_iff)
  show g: "isValid (JObj kvs) \<longleftrightarrow> (\<exists>k \<in> set (keys kvs). isValid (obj_get kvs k))"
    by (simp add: isValid_JObj list_ex_iff)
  show "isValid (JObj kvs) \<longleftrightarrow> (\<exists>kv \<in> set kvs. isValid (snd kv))" if "distinct (keys kvs)"
    using that by (rule isValid_JObj_entries)
  show "\<not> isValid (JArr [])"
    by simp
  show "\<not> isValid (JObj [])"
    by (simp add: isValid_JObj keys_def)
  show "\<not> isValid (JObj kvs)" if "\<forall>kv \<in> set kvs. \<not> isValid (snd kv)"
  proof
    assume "isValid (JObj kvs)"
    with g obtain k where "k \<in> set (keys kvs)" "isValid (obj_get kvs k)"
      by blast
    with obj_get_in [of k kvs] that show False
      by force
  qed
qed

theorem isValid_containers_witness:
  "distinct (keys [(''code'', JStr ''123XX''), (''name'', JStr '''')]) \<and>
   isValid (JObj [(''code'', JStr ''123XX''), (''name'', JStr '''')]) \<and>
   \<not> isValid (JStr '''') \<and>
   \<not> isValid (JObj [(''code'', JStr ''''), (''name'', JStr '''')]) \<and>
   isValid (JArr [JStr ''naurange'', JStr ''  ''])"
proof -
  let ?good = "[(''code'', JStr ''123XX''), (''name'', JStr '''')]"
  let ?blank = "[(''code'', JStr ''''), (''name'', JStr '''')]"
  have d: "distinct (keys ?good)"
    by (simp add: keys_def)
  have e: "\<exists>kv \<in> set ?good. isValid (snd kv)"
    by (simp add: trim_def is_ws_def)
  have n: "\<not> isValid (JStr '''')"
    by (simp add: trim_def)
  then have b: "\<forall>kv \<in> set ?blank. \<not> isValid (snd kv)"
    by simp
  have x: "\<exists>x \<in> set [JStr ''naurange'', JStr ''  '']. isValid x"
    by (simp add: trim_def is_ws_def)
  from isValid_containers [of "[JStr ''naurange'', JStr ''  '']" ?good] d e x
  have "isValid (JObj ?good)" "isValid (JArr [JStr ''naurange'', JStr ''  ''])"
    by blast+
  moreover from isValid_containers [of "[]" ?blank] b have "\<not> isValid (JObj ?blank)"
    by blast
  ultimately show ?thesis
    using d n by blast
qed

text \<open>
  C4. For every string and every splitter, \<open>toTitleCase\<close> is the join with one space
  of the pieces of the segments that \<open>split\<close> yields, where the piece of a segment has
  its first character in upper case and the remainder in lower case, and the empty
  segment gives the empty piece. The segments are cut at literal occurrences of the
  splitter: joined with a non-empty splitter they give the string back, and none of
  them contains the splitter; the empty splitter cuts the string into its characters.
\<close>

theorem toTitleCase_segments:
  "toTitleCase (JStr s) p = JStr (join '' '' (map spec_title_piece (split s p))) \<and>
   (p \<noteq> [] \<longrightarrow> join p (split s p) = s \<and> (\<forall>seg \<in> set (split s p). \<forall>i. \<not> occurs_at p seg i)) \<and>
   (p = [] \<longrightarrow> split s p = map (\<lambda>c. [c]) s)"
proof (intro conjI impI ballI allI)
  show "toTitleCase (JStr s) p = JStr (join '' '' (map spec_title_piece (split s p)))"
    by (rule toTitleCase_JStr)
  show "join p (split s p) = s" if "p \<noteq> []"
    using that by (simp add: split_def join_split_from)
  show "\<not> occurs_at p seg i" if "p \<noteq> []" "seg \<in> set (split s p)" for seg i
    using that split_from_no_occurrence [of p "[]" s seg i] by (simp add: split_def)
  show "split s p = map (\<lambda>c. [c]) s" if "p = []"
    using that by (simp add: split_def)
qed

theorem toTitleCase_segments_witness:
  "toTitleCase (JStr ''barbie_girl'') ''_'' = JStr ''Barbie Girl'' \<and>
   ''_'' \<noteq> [] \<and> split ''barbie_girl'' ''_'' = [''barbie'', ''girl''] \<and>
   join ''_'' [''barbie'', ''girl''] = ''barbie_girl'' \<and>
   toTitleCase (JStr ''a  niCe'') '' '' = JStr ''A  Nice'' \<and>
   toTitleCase (JStr ''ab'') [] = JStr ''A B''"
proof -
  have s: "split ''barbie_girl'' ''_'' = [''barbie'', ''girl'']"
    by (simp add: split_def)
  have s2: "split ''a  niCe'' '' '' = [''a'', [], ''niCe'']"
    by (simp add: split_def)
  have u: "upper_char CHR ''b'' = CHR ''B''" "upper_char CHR ''g'' = CHR ''G''"
    "upper_char CHR ''a'' = CHR ''A''" "upper_char CHR ''n'' = CHR ''N''"
    by (simp_all add: upper_char_def lower_letters_def upper_letters_def)
  have l: "map lower_char ''arbie'' = ''arbie''" "map lower_char ''irl'' = ''irl''"
    "map lower_char ''iCe'' = ''ice''"
    by (simp_all add: lower_char_def lower_letters_def upper_letters_def)
  note t = toTitleCase_segments
  from t [of "''barbie_girl''" "''_''"] s u l
  have 1: "toTitleCase (JStr ''barbie_girl'') ''_'' = JStr ''Barbie Girl''"
    and 2: "join ''_'' [''barbie'', ''girl''] = ''barbie_girl''"
    by simp_all
  from t [of "''a  niCe''" "'' ''"] s2 u l
  have 3: "toTitleCase (JStr ''a  niCe'') '' '' = JStr ''A  Nice''"
    by simp
  from t [of "''ab''" "[]"] u
  have 4: "toTitleCase (JStr ''ab'') [] = JStr ''A B''"
    by (simp add: upper_char_def lower_letters_def upper_letters_def)
  from 1 2 3 4 s show ?thesis by simp
qed

text \<open>
  C5. As stated, a key without underscore would be renamed to the key with its first
  letter in lower case and the rest unchanged. The code puts the whole first segment in
  lower case: \<open>personName\<close> becomes \<open>personname\<close>.
\<close>

theorem camelize_first_letter_only_counterexample:
  "CHR ''_'' \<notin> set ''personName'' \<and>
   camelize (JObj [(''personName'', JStr ''x'')]) = JObj [(''personname'', JStr ''x'')] \<and>
   spec_lower_first ''personName'' = ''personName'' \<and>
   transformedKey ''personName'' \<noteq> spec_lower_first ''personName''"
  by (simp add: camelize_single camelize_leaf transformedKey_no_underscore spec_lower_first_def
      toLocaleLowerCase_def lower_char_def lower_letters_def upper_letters_def proto_key_def)

text \<open>
  C5, amended. For every record key without underscore, \<open>camelize\<close> renames the key to
  the key with all its letters in lower case.
\<close>

theorem camelize_key_without_underscore:
  "CHR ''_'' \<notin> set key \<Longrightarrow>
   transformedKey key = toLocaleLowerCase key \<and>
   camelize (JObj [(key, v)]) = JObj [(toLocaleLowerCase key, camelize v)] \<and>
   (key \<in> set (keys kvs) \<longrightarrow>
      toLocaleLowerCase key \<in> set (keys (as_record (camelize (JObj kvs)))))"
proof (intro conjI impI)
  assume u: "CHR ''_'' \<notin> set key"
  then show t: "transformedKey key = toLocaleLowerCase key"
    by (rule transformedKey_no_underscore)
  from u t have n: "transformedKey key \<noteq> proto_key"
    by (simp add: toLocaleLowerCase_not_proto)
  from camelize_single [OF n] t
  show "camelize (JObj [(key, v)]) = JObj [(toLocaleLowerCase key, camelize v)]"
    by simp
  show "toLocaleLowerCase key \<in> set (keys (as_record (camelize (JObj kvs))))"
    if "key \<in> set (keys kvs)"
    using keys_camelize_JObj [OF that n] t by simp
qed

theorem camelize_key_without_underscore_witness:
  "CHR ''_'' \<notin> set ''personName'' \<and>
   transformedKey ''personName'' = ''personname'' \<and>
   camelize (JObj [(''personName'', JStr ''x'')]) = JObj [(''personname'', JStr ''x'')] \<and>
   ''personName'' \<in> set (keys [(''id'', JNull), (''personName'', JStr ''x'')]) \<and>
   ''personname'' \<in> set (keys (as_record (camelize (JObj [(''id'', JNull), (''personName'', JStr ''x'')]))))"
proof -
  have h: "CHR ''_'' \<notin> set ''personName''"
    by simp
  have k: "''personName'' \<in> set (keys [(''id'', JNull), (''personName'', JStr ''x'')])"
    by (simp add: keys_def)
  have l: "toLocaleLowerCase ''personName'' = ''personname''"
    by (simp add: toLocaleLowerCase_def lower_char_def lower_letters_def upper_letters_def)
  have c: "camelize (JStr ''x'') = JStr ''x''"
    by (rule camelize_leaf)
  from camelize_key_without_underscore [OF h, of "JStr ''x''" "[(''id'', JNull), (''personName'', JStr ''x'')]"]
    h k l c show ?thesis
    by simp
qed

text \<open>
  C6. When the sanitized value is valid, sanitizing it again changes nothing:
  \<open>sanitize (sanitize t) = sanitize t\<close>.
\<close>

theorem sanitize_idempotent_on_output:
  "isValid (sanitize t) \<Longrightarrow> sanitize (sanitize t) = sanitize t"
  by (rule sanitize_sanitize)

theorem sanitize_idempotent_on_output_witness:
  "isValid (sanitize (JObj [(''name'', JStr ''  x  ''), (''info'', JObj []), (''list'', JArr [])])) \<and>
   sanitize (sanitize (JObj [(''name'', JStr ''  x  ''), (''info'', JObj []), (''list'', JArr [])])) =
   sanitize (JObj [(''name'', JStr ''  x  ''), (''info'', JObj []), (''list'', JArr [])])"
proof -
  let ?t = "JObj [(''name'', JStr ''  x  ''), (''info'', JObj []), (''list'', JArr [])]"
  have "sanitize ?t = JObj [(''name'', JStr ''x'')]"
    by (simp add: sanitize_JObj keys_def trim_def is_ws_def isValid_JObj sanitize_JArr
        proto_key_def)
  then have v: "isValid (sanitize ?t)"
    by (simp add: isValid_JObj keys_def obj_get_def trim_def is_ws_def)
  from v sanitize_idempotent_on_output [OF v] show ?thesis
    by blast
qed

text \<open>
  C7. Sanitizing is never to change validity. On the code it does: the record with the
  own keys \<open>__proto__\<close> holding \<open>"x"\<close> and \<open>a\<close> holding \<open>" "\<close>, as \<open>JSON.parse\<close> builds it,
  is valid, its sanitized form is the empty record, and the empty record is invalid.
\<close>

theorem sanitize_loses_validity:
  "isValid (JObj [(''__proto__'', JStr ''x''), (''a'', JStr '' '')]) \<and>
   sanitize (JObj [(''__proto__'', JStr ''x''), (''a'', JStr '' '')]) = JObj [] \<and>
   \<not> isValid (sanitize (JObj [(''__proto__'', JStr ''x''), (''a'', JStr '' '')]))"
  by (simp add: sanitize_JObj isValid_JObj keys_def obj_get_def proto_key_def trim_def is_ws_def)

text \<open>
  C8. \<open>areEqual\<close> is to be symmetric in its two values. On the code it is not: with
  \<open>a = {x: undefined, y: 1}\<close> and \<open>b = {y: 1, z: 2}\<close> the call on \<open>a, b\<close> is true and
  the call on \<open>b, a\<close> is false, under every flag combination.
\<close>

theorem areEqual_not_symmetric:
  "areEqual (JObj [(''x'', JUndefined), (''y'', JNum (Num 1))])
            (JObj [(''y'', JNum (Num 1)), (''z'', JNum (Num 2))]) w c \<and>
   \<not> areEqual (JObj [(''y'', JNum (Num 1)), (''z'', JNum (Num 2))])
              (JObj [(''x'', JUndefined), (''y'', JNum (Num 1))]) w c"
  by (simp add: areEqual_JObj keys_def obj_get_def areEqual_typeof_neq)

text \<open>
  C9. \<open>normalize\<close> is to keep, for each valid key, the first element that produces it.
  The code tests the slot with \<open>!accumulator[key]\<close>, so a falsy first element is
  overwritten: on \<open>[0, 1]\<close> with the constant key \<open>k\<close> the result maps \<open>k\<close> to 1.
\<close>

theorem normalize_overwrites_falsy_first:
  "normalize (JArr [JNum (Num 0), JNum (Num 1)]) (Callable (\<lambda>item. Inr ''k'')) =
     Inr [(''k'', JNum (Num 1))]"
  by (simp add: normalize_def obj_get_def trim_def is_ws_def proto_key_def)

theorem normalize_overwrites_falsy_first_witness:
  "isArray (JArr [JNum (Num 0), JNum (Num 1)]) \<and>
   is_function (Callable (\<lambda>item. Inr ''k'')) \<and>
   isValid (JStr ''k'') \<and>
   \<not> truthy (JNum (Num 0)) \<and>
   normalize (JArr [JNum (Num 0), JNum (Num 1)]) (Callable (\<lambda>item. Inr ''k'')) \<noteq>
     Inr [(''k'', JNum (Num 0))]"
  using normalize_overwrites_falsy_first by (simp add: trim_def is_ws_def)

text \<open>
  C10. When the first argument is not an array or the second is not a function, both
  \<open>groupBy\<close> and \<open>normalize\<close> return the empty mapping, and no exception.
\<close>

theorem malformed_input_empty:
  "\<not> isArray v \<or> \<not> is_function keyGenerator \<Longrightarrow>
   groupBy v keyGenerator = Inr [] \<and> normalize v keyGenerator = Inr []"
  by (simp add: groupBy_def normalize_def)

theorem malformed_input_empty_witness:
  "\<not> isArray JNull \<and>
   groupBy JNull (Callable (\<lambda>x. Inr ''hola'')) = Inr [] \<and>
   normalize JNull (Callable (\<lambda>x. Inr ''hola'')) = Inr [] \<and>
   \<not> is_function (NotCallable JUndefined) \<and>
   groupBy (JArr []) (NotCallable JUndefined) = Inr [] \<and>
   normalize (JArr []) (NotCallable JUndefined) = Inr []"
proof -
  have h1: "\<not> isArray JNull \<or> \<not> is_function (Callable (\<lambda>x. Inr ''hola''))"
    by simp
  have h2: "\<not> isArray (JArr []) \<or> \<not> is_function (NotCallable JUndefined)"
    by simp
  from malformed_input_empty [OF h1] malformed_input_empty [OF h2] show ?thesis
    by simp
qed

end
